theory Spec2Isabelle
  imports Main "HOL-Library.Word"
begin

unbundle bit_operations_syntax

section \<open>Data model\<close>

text \<open>
  A Python \<open>bytes\<close> object is a list of octets; indexing it yields an \<open>int\<close> in
  \<open>0..255\<close>, which is \<open>uint\<close> of the octet here. Python integers are unbounded and are
  modelled by \<open>int\<close>; \<open>&\<close>, \<open>|\<close>, \<open>^\<close> and \<open>>>\<close> are \<open>AND\<close>, \<open>OR\<close>, \<open>XOR\<close> and
  \<open>drop_bit\<close> on \<open>int\<close>.
\<close>

type_synonym byte = "8 word"
type_synonym bytes = "byte list"

text \<open>The \<open>ValueError\<close>s of \<open>src/snmp/types.py\<close>, told apart by their message.\<close>

datatype value_error =
    UnknownTypeHeader int       \<comment> \<open>\<open>'Unknown type header: 0x%02x' % type\<close>\<close>
  | InvalidTypeHeader int int   \<comment> \<open>\<open>'Invalid type header! Expected 0x.., got 0x%02x'\<close>: expected, got\<close>
  | CorruptPacket int int       \<comment> \<open>\<open>'Corrupt packet: Unexpected length ...'\<close>: expected, got\<close>
  | ByteOutOfRange              \<comment> \<open>\<open>bytes(...)\<close> of a list with an element outside \<open>range(256)\<close>\<close>

datatype error =
    IndexError
  | NotImplementedError
  | ValueError value_error
  | SnmpError
  | AttributeError
  | StopIteration
  | UnicodeDecodeError

text \<open>
  The objects the decoder builds. \<open>consume\<close> returns Python's \<open>None\<close> for the type
  octet \<open>0x05\<close>. A \<open>String\<close> carries \<open>value\<close> and \<open>length\<close>, a \<open>List\<close> its \<open>items\<close>, a
  \<open>GetResponse\<close> its \<open>request_id\<close> and \<open>value\<close>.
\<close>

record Oid =
  identifiers :: "int list"
  collapsed_identifiers :: "int list"
  oid_length :: int

datatype py_value =
    PyNone
  | Integer int
  | String string int
  | List "py_value list"
  | OidV Oid
  | GetResponse py_value py_value

section \<open>Python primitives\<close>

text \<open>\<open>int.from_bytes(octets, 'big')\<close>.\<close>

definition int_from_bytes :: "bytes \<Rightarrow> int" where
  "int_from_bytes octets = foldl (\<lambda>acc b. acc * 256 + uint b) 0 octets"

text \<open>\<open>bytes(xs)\<close> for a list of integers: \<open>ValueError\<close> unless every element is in \<open>range(256)\<close>.\<close>

definition bytes_of :: "int list \<Rightarrow> error + bytes" where
  "bytes_of xs =
     (if list_all (\<lambda>x. 0 \<le> x \<and> x < 256) xs then Inr (map word_of_int xs)
      else Inl (ValueError ByteOutOfRange))"

text \<open>\<open>data.decode('ascii')\<close>.\<close>

definition ascii_decode :: "bytes \<Rightarrow> error + string" where
  "ascii_decode data =
     (if list_all (\<lambda>b. uint b < 128) data then Inr (map (\<lambda>b. char_of (uint b)) data)
      else Inl UnicodeDecodeError)"

text \<open>\<open>xs[i]\<close> for a literal index \<open>i \<ge> 0\<close>.\<close>

definition getitem :: "'a list \<Rightarrow> nat \<Rightarrow> error + 'a" where
  "getitem xs i = (if i < length xs then Inr (xs ! i) else Inl IndexError)"

section \<open>Length codec (\<open>src/snmp/types.py\<close>)\<close>

definition encode_length :: "int \<Rightarrow> error + int" where
  "encode_length value =
     (if value AND 128 \<noteq> 0 then Inl NotImplementedError else Inr value)"

definition consume_length :: "bytes \<Rightarrow> error + (int \<times> bytes)" where
  "consume_length data =
     (case data of
        [] \<Rightarrow> Inl IndexError
      | d0 # _ \<Rightarrow>
          if uint d0 = 255 then Inl NotImplementedError
          else if uint d0 AND 128 = 0 then Inr (int_from_bytes [d0], drop 1 data)
          else if uint d0 XOR 128 = 0 then Inl NotImplementedError
          else
            let num_octets = nat (uint d0 XOR 128);
                value_octets = take num_octets (drop 1 data)
            in Inr (int_from_bytes value_octets, drop (num_octets + 1) data))"

section \<open>Integer\<close>

definition Integer_from_bytes :: "bytes \<Rightarrow> error + py_value" where
  "Integer_from_bytes data =
     (case data of
        [] \<Rightarrow> Inl IndexError
      | d0 # _ \<Rightarrow>
          if uint d0 \<noteq> 2 then Inl (ValueError (InvalidTypeHeader 2 (uint d0)))
          else
            (case consume_length (drop 1 data) of
               Inl e \<Rightarrow> Inl e
             | Inr (len, value) \<Rightarrow> Inr (Integer (int_from_bytes value))))"

text \<open>
  The loop of \<open>Integer.__bytes__\<close>: \<open>while remainder: ...\<close>. For a negative \<open>remainder\<close>
  the shift never reaches zero, so the loop is a partial function: \<open>None\<close> is not returning.
\<close>

partial_function (option) Integer_bytes_loop :: "int \<Rightarrow> int list \<Rightarrow> int list option" where
  "Integer_bytes_loop remainder octets =
     (if remainder \<noteq> 0
      then Integer_bytes_loop (drop_bit 8 remainder) (octets @ [remainder AND 255])
      else Some octets)"

declare Integer_bytes_loop.simps [code]

definition Integer_octets :: "int \<Rightarrow> int list option" where
  "Integer_octets value =
     (if value = 0 then Some [0]
      else map_option rev (Integer_bytes_loop value []))"

definition Integer_bytes :: "int \<Rightarrow> (error + bytes) option" where
  "Integer_bytes value =
     (case Integer_octets value of
        None \<Rightarrow> None
      | Some octets \<Rightarrow> Some (bytes_of ([2, int (length octets)] @ octets)))"

section \<open>String\<close>

definition String_init :: "string \<Rightarrow> error + py_value" where
  "String_init value =
     (case encode_length (int (length value)) of
        Inl e \<Rightarrow> Inl e
      | Inr len \<Rightarrow> Inr (String value len))"

definition String_from_bytes :: "bytes \<Rightarrow> error + py_value" where
  "String_from_bytes data =
     (case data of
        [] \<Rightarrow> Inl IndexError
      | d0 # _ \<Rightarrow>
          if uint d0 \<noteq> 4 then Inl (ValueError (InvalidTypeHeader 4 (uint d0)))
          else
            (case consume_length (drop 1 data) of
               Inl e \<Rightarrow> Inl e
             | Inr (len, data') \<Rightarrow>
                 (case ascii_decode data' of
                    Inl e \<Rightarrow> Inl e
                  | Inr s \<Rightarrow> String_init s)))"

section \<open>Oid\<close>

text \<open>
  \<open>Oid.decode_large_value(current_char, stream)\<close>. The iterator \<open>stream\<close> is the list of
  octets not yet read; \<open>next(stream)\<close> on an exhausted iterator raises \<open>StopIteration\<close>.
  The result carries the iterator as the call leaves it.
\<close>

fun decode_large_value_loop :: "int \<Rightarrow> bytes \<Rightarrow> int list \<Rightarrow> error + (int \<times> bytes \<times> int list)" where
  "decode_large_value_loop current_char stream buffer =
     (if current_char > 127 then
        (case stream of
           [] \<Rightarrow> Inl StopIteration
         | c # stream' \<Rightarrow>
             decode_large_value_loop (uint c) stream' (buffer @ [current_char XOR 128]))
      else Inr (current_char, stream, buffer))"

definition decode_large_value :: "int \<Rightarrow> bytes \<Rightarrow> error + (int \<times> bytes)" where
  "decode_large_value current_char stream =
     (case decode_large_value_loop current_char stream [] of
        Inl e \<Rightarrow> Inl e
      | Inr (current_char', stream', buffer) \<Rightarrow>
          Inr (foldl (\<lambda>total (i, digit). total + digit * 128 ^ (i + 1))
                 current_char' (enumerate 0 (rev buffer)),
               stream'))"

text \<open>The loop of \<open>Oid.encode_large_value\<close>: \<open>while value: ...\<close>.\<close>

partial_function (option) encode_large_value_loop :: "int \<Rightarrow> int list \<Rightarrow> int list option" where
  "encode_large_value_loop value output =
     (if value \<noteq> 0
      then encode_large_value_loop (drop_bit 7 value) (output @ [value AND 127 OR 128])
      else Some output)"

declare encode_large_value_loop.simps [code]

definition encode_large_value :: "int \<Rightarrow> int list option" where
  "encode_large_value value =
     (if value \<le> 127 then Some [value]
      else map_option rev (encode_large_value_loop (drop_bit 7 value) [value AND 127]))"

text \<open>
  The two loops of \<open>Oid.__init__\<close> over \<open>rest\<close>: the first fills \<open>exploded_high_values\<close>
  (never read afterwards), the second extends \<open>__collapsed_identifiers\<close>.
\<close>

fun exploded_loop :: "int list \<Rightarrow> int list \<Rightarrow> int list option" where
  "exploded_loop [] exploded_high_values = Some exploded_high_values"
| "exploded_loop (char # rest) exploded_high_values =
     (if char > 127 then
        (case encode_large_value char of
           None \<Rightarrow> None
         | Some ds \<Rightarrow> exploded_loop rest (exploded_high_values @ ds))
      else exploded_loop rest (exploded_high_values @ [char]))"

fun collapsed_loop :: "int list \<Rightarrow> int list \<Rightarrow> int list option" where
  "collapsed_loop [] collapsed = Some collapsed"
| "collapsed_loop (subidentifier # rest) collapsed =
     (case encode_large_value subidentifier of
        None \<Rightarrow> None
      | Some ds \<Rightarrow> collapsed_loop rest (collapsed @ ds))"

text \<open>
  \<open>Oid(*identifiers)\<close> for a sequence of integers: \<open>identifiers[0]\<close> and \<open>identifiers[1]\<close>
  raise \<open>IndexError\<close> on a sequence shorter than two.
\<close>

definition Oid_init :: "int list \<Rightarrow> (error + Oid) option" where
  "Oid_init ids =
     (if length ids < 2 then Some (Inl IndexError)
      else
        let first = ids ! 0; second = ids ! 1; rest = drop 2 ids;
            first_output = 40 * first + second
        in (case exploded_loop rest [] of
              None \<Rightarrow> None
            | Some exploded_high_values \<Rightarrow>
                (case collapsed_loop rest [first_output] of
                   None \<Rightarrow> None
                 | Some collapsed \<Rightarrow>
                     (case encode_length (int (length collapsed)) of
                        Inl e \<Rightarrow> Some (Inl e)
                      | Inr len \<Rightarrow>
                          Some (Inr \<lparr>identifiers = ids, collapsed_identifiers = collapsed,
                                     oid_length = len\<rparr>)))))"

definition Oid_bytes :: "Oid \<Rightarrow> error + bytes" where
  "Oid_bytes self = bytes_of ([6, oid_length self] @ collapsed_identifiers self)"

text \<open>\<open>Oid.__eq__\<close> compares the collapsed identifiers.\<close>

definition Oid_eq :: "Oid \<Rightarrow> Oid \<Rightarrow> bool" where
  "Oid_eq self other = (collapsed_identifiers self = collapsed_identifiers other)"

declare decode_large_value_loop.simps [simp del]

lemma decode_large_value_loop_length:
  "decode_large_value_loop c stream buffer = Inr (c', stream', buffer')
   \<Longrightarrow> length stream' \<le> length stream"
proof (induction stream arbitrary: c buffer)
  case Nil
  then show ?case
    by (simp add: decode_large_value_loop.simps [of c "[]"] split: if_splits)
next
  case (Cons a stream)
  show ?case
  proof (cases "c > 127")
    case True
    with Cons.prems have "decode_large_value_loop (uint a) stream (buffer @ [c XOR 128])
        = Inr (c', stream', buffer')"
      by (simp add: decode_large_value_loop.simps [of c "a # stream"])
    from Cons.IH [OF this] show ?thesis by simp
  next
    case False
    with Cons.prems show ?thesis
      by (simp add: decode_large_value_loop.simps [of c "a # stream"])
  qed
qed

lemma decode_large_value_length:
  "decode_large_value c stream = Inr (v, stream') \<Longrightarrow> length stream' \<le> length stream"
  by (auto simp: decode_large_value_def split: sum.splits dest: decode_large_value_loop_length)

text \<open>The \<open>for char in remaining\<close> loop of \<open>Oid.from_bytes\<close>.\<close>

function from_bytes_loop :: "bytes \<Rightarrow> int list \<Rightarrow> error + int list" where
  "from_bytes_loop [] output = Inr output"
| "from_bytes_loop (char # remaining) output =
     (if uint char > 127 then
        (case decode_large_value (uint char) remaining of
           Inl e \<Rightarrow> Inl e
         | Inr (collapsed_value, remaining') \<Rightarrow>
             from_bytes_loop remaining' (output @ [collapsed_value]))
      else from_bytes_loop remaining (output @ [uint char]))"
  by pat_completeness auto
termination
  by (relation "measure (\<lambda>(remaining, output). length remaining)")
     (auto dest: decode_large_value_length)

definition Oid_from_bytes :: "bytes \<Rightarrow> (error + Oid) option" where
  "Oid_from_bytes data =
     (case data of
        [] \<Rightarrow> Some (Inl IndexError)
      | d0 # _ \<Rightarrow>
          if uint d0 \<noteq> 6 then Some (Inl (ValueError (InvalidTypeHeader 2 (uint d0))))
          else
            (case consume_length (drop 1 data) of
               Inl e \<Rightarrow> Some (Inl e)
             | Inr (len, ids) \<Rightarrow>
                 (case ids of
                    [] \<Rightarrow> Some (Inl IndexError)
                  | i0 # remaining \<Rightarrow>
                      (case from_bytes_loop remaining [uint i0 div 40, uint i0 mod 40] of
                         Inl e \<Rightarrow> Some (Inl e)
                       | Inr output \<Rightarrow> Oid_init output))))"

section \<open>The TLV decoder (\<open>src/snmp/types.py\<close>)\<close>

text \<open>
  Attribute access on a decoded object. \<open>value_truthy obj\<close> is \<open>bool(obj.value)\<close>: only
  \<open>Integer\<close>, \<open>String\<close> and \<open>GetResponse\<close> have a \<open>value\<close>; an \<open>int\<close> is true when
  non-zero, a \<open>str\<close> when non-empty, an object when it is not \<open>None\<close>. \<open>items obj\<close> is
  \<open>obj.items\<close>, which only a \<open>List\<close> has.
\<close>

fun value_truthy :: "py_value \<Rightarrow> error + bool" where
  "value_truthy (Integer v) = Inr (v \<noteq> 0)"
| "value_truthy (String s len) = Inr (s \<noteq> [])"
| "value_truthy (GetResponse request_id v) = Inr (v \<noteq> PyNone)"
| "value_truthy PyNone = Inl AttributeError"
| "value_truthy (List xs) = Inl AttributeError"
| "value_truthy (OidV oid) = Inl AttributeError"

fun items :: "py_value \<Rightarrow> error + py_value list" where
  "items (List xs) = Inr xs"
| "items _ = Inl AttributeError"

text \<open>\<open>values.items[0].items[1]\<close>, the last expression of \<open>GetResponse.from_bytes\<close>.\<close>

definition items_0_items_1 :: "py_value \<Rightarrow> error + py_value" where
  "items_0_items_1 values =
     (case items values of
        Inl e \<Rightarrow> Inl e
      | Inr xs \<Rightarrow>
          (case getitem xs 0 of
             Inl e \<Rightarrow> Inl e
           | Inr x0 \<Rightarrow>
               (case items x0 of
                  Inl e \<Rightarrow> Inl e
                | Inr ys \<Rightarrow> getitem ys 1)))"

lemma consume_length_shorter:
  "consume_length data = Inr (n, rest) \<Longrightarrow> length rest < length data"
  by (auto simp: consume_length_def Let_def split: list.splits if_splits)

text \<open>
  \<open>consume\<close>, \<open>List.from_bytes\<close> with its \<open>while content\<close> loop, and
  \<open>GetResponse.from_bytes\<close> call each other. \<open>data[:length+2]\<close> is \<open>take\<close>,
  \<open>remainder[length:]\<close> is \<open>drop\<close>: a Python slice never raises.
\<close>

function consume :: "bytes \<Rightarrow> (error + (py_value \<times> bytes)) option"
  and List_from_bytes_loop :: "bytes \<Rightarrow> py_value list \<Rightarrow> (error + py_value list) option"
  and List_from_bytes :: "bytes \<Rightarrow> (error + py_value) option"
  and GetResponse_from_bytes :: "bytes \<Rightarrow> (error + py_value) option"
where
  "consume data =
     (case data of
        [] \<Rightarrow> Some (Inl IndexError)
      | t # _ \<Rightarrow>
          (case consume_length (drop 1 data) of
             Inl e \<Rightarrow> Some (Inl e)
           | Inr (len, remainder) \<Rightarrow>
               let chunk = take (nat (len + 2)) data in
               (case (if uint t = 0x02 then Some (Integer_from_bytes chunk)
                      else if uint t = 0x04 then Some (String_from_bytes chunk)
                      else if uint t = 0x30 then List_from_bytes chunk
                      else if uint t = 0x05 then Some (Inr PyNone)
                      else if uint t = 0xa2 then GetResponse_from_bytes chunk
                      else if uint t = 0x06 then
                        map_option (map_sum id OidV) (Oid_from_bytes chunk)
                      else Some (Inl (ValueError (UnknownTypeHeader (uint t)))))
                of
                  None \<Rightarrow> None
                | Some (Inl e) \<Rightarrow> Some (Inl e)
                | Some (Inr v) \<Rightarrow> Some (Inr (v, drop (nat len) remainder)))))"
| "List_from_bytes_loop content output =
     (if content \<noteq> [] then
        (case consume content of
           None \<Rightarrow> None
         | Some (Inl e) \<Rightarrow> Some (Inl e)
         | Some (Inr (v, content')) \<Rightarrow>
             if v = PyNone then Some (Inr output)
             else List_from_bytes_loop content' (output @ [v]))
      else Some (Inr output))"
| "List_from_bytes data =
     (case data of
        [] \<Rightarrow> Some (Inl IndexError)
      | d0 # _ \<Rightarrow>
          if uint d0 \<noteq> 0x30 then Some (Inl (ValueError (InvalidTypeHeader 0x30 (uint d0))))
          else
            (case consume_length (drop 1 data) of
               Inl e \<Rightarrow> Some (Inl e)
             | Inr (len, content) \<Rightarrow>
                 (case List_from_bytes_loop content [] of
                    None \<Rightarrow> None
                  | Some (Inl e) \<Rightarrow> Some (Inl e)
                  | Some (Inr output) \<Rightarrow> Some (Inr (List output)))))"
| "GetResponse_from_bytes data =
     (case data of
        [] \<Rightarrow> Some (Inl IndexError)
      | d0 # _ \<Rightarrow>
          if uint d0 \<noteq> 0xa2 then Some (Inl (ValueError (InvalidTypeHeader 0xa2 (uint d0))))
          else
            (case consume_length (drop 1 data) of
               Inl e \<Rightarrow> Some (Inl e)
             | Inr (expected_length, data1) \<Rightarrow>
                 if int (length data1) \<noteq> expected_length
                 then Some (Inl (ValueError (CorruptPacket expected_length (int (length data1)))))
                 else
                   (case consume data1 of
                      None \<Rightarrow> None
                    | Some (Inl e) \<Rightarrow> Some (Inl e)
                    | Some (Inr (request_id, data2)) \<Rightarrow>
                        (case consume data2 of
                           None \<Rightarrow> None
                         | Some (Inl e) \<Rightarrow> Some (Inl e)
                         | Some (Inr (error_code, data3)) \<Rightarrow>
                             (case consume data3 of
                                None \<Rightarrow> None
                              | Some (Inl e) \<Rightarrow> Some (Inl e)
                              | Some (Inr (error_index, data4)) \<Rightarrow>
                                  (case value_truthy error_code of
                                     Inl e \<Rightarrow> Some (Inl e)
                                   | Inr True \<Rightarrow> Some (Inl SnmpError)
                                   | Inr False \<Rightarrow>
                                       (case consume data4 of
                                          None \<Rightarrow> None
                                        | Some (Inl e) \<Rightarrow> Some (Inl e)
                                        | Some (Inr (values, data5)) \<Rightarrow>
                                            (case items_0_items_1 values of
                                               Inl e \<Rightarrow> Some (Inl e)
                                             | Inr v \<Rightarrow>
                                                 Some (Inr (GetResponse request_id v))))))))))"
  by pat_completeness auto


lemma consume_shorter:
  assumes "consume_List_from_bytes_loop_List_from_bytes_GetResponse_from_bytes_dom (Inl (Inl data))"
    and "consume data = Some (Inr (v, rest))"
  shows "length rest < length data"
proof -
  note eq = assms(2) [unfolded consume.psimps [OF assms(1)]]
  from eq obtain t ds where data: "data = t # ds"
    by (cases data) simp_all
  from eq have "\<exists>len remainder. consume_length (drop 1 data) = Inr (len, remainder)"
    by (cases "consume_length (drop 1 data)") (auto simp add: data)
  then obtain len remainder where cl: "consume_length (drop 1 data) = Inr (len, remainder)"
    by blast
  from cl have cl': "consume_length ds = Inr (len, remainder)"
    by (simp add: data)
  from eq have "rest = drop (nat len) remainder"
    by (simp add: data cl' Let_def split: option.splits sum.splits)
  moreover from cl have "length remainder < length (drop 1 data)"
    by (rule consume_length_shorter)
  ultimately show ?thesis by simp
qed

termination consume
  apply (relation "measure (\<lambda>x. case x of
            Inl (Inl data) \<Rightarrow> 4 * length data + 2
          | Inl (Inr (content, output)) \<Rightarrow> 4 * length content + 3
          | Inr (Inl data) \<Rightarrow> 4 * length data + 1
          | Inr (Inr data) \<Rightarrow> 4 * length data + 1)")
  apply (auto simp: min_def dest!: consume_length_shorter consume_shorter [rotated])
  done

declare consume.simps [simp del] List_from_bytes_loop.simps [simp del]
  List_from_bytes.simps [simp del] GetResponse_from_bytes.simps [simp del]

section \<open>\<open>GetResponse.decode\<close> (\<open>src/puresnmp/types.py\<close>)\<close>

text \<open>
  \<open>GetResponse.decode\<close> reads its payload with \<open>pop_tlv\<close>, imported from
  \<open>puresnmp.x690.types\<close>, whose source is not at hand. \<open>pop_tlv\<close> is therefore a
  parameter, and so are the two attribute reads on the objects it returns:
  \<open>value_true obj\<close> for \<open>bool(obj.value)\<close> and \<open>items_of obj\<close> for \<open>obj.items\<close>. The
  constructed \<open>GetResponse(request_id, oid, value)\<close> is the triple of its fields, with
  \<open>None\<close> for the empty result.
\<close>

definition GetResponse_decode ::
  "(bytes \<Rightarrow> (error + ('obj \<times> bytes)) option) \<Rightarrow> ('obj \<Rightarrow> error + bool) \<Rightarrow>
   ('obj \<Rightarrow> error + 'obj list) \<Rightarrow> bytes \<Rightarrow> (error + ('obj \<times> 'obj \<times> 'obj option)) option" where
  "GetResponse_decode pop_tlv value_true items_of data =
     (case pop_tlv data of
        None \<Rightarrow> None
      | Some (Inl e) \<Rightarrow> Some (Inl e)
      | Some (Inr (request_id, data2)) \<Rightarrow>
          (case pop_tlv data2 of
             None \<Rightarrow> None
           | Some (Inl e) \<Rightarrow> Some (Inl e)
           | Some (Inr (error_code, data3)) \<Rightarrow>
               (case pop_tlv data3 of
                  None \<Rightarrow> None
                | Some (Inl e) \<Rightarrow> Some (Inl e)
                | Some (Inr (error_index, data4)) \<Rightarrow>
                    (case value_true error_code of
                       Inl e \<Rightarrow> Some (Inl e)
                     | Inr True \<Rightarrow> Some (Inl SnmpError)
                     | Inr False \<Rightarrow>
                         (case pop_tlv data4 of
                            None \<Rightarrow> None
                          | Some (Inl e) \<Rightarrow> Some (Inl e)
                          | Some (Inr (values, data5)) \<Rightarrow>
                              (case items_of values of
                                 Inl e \<Rightarrow> Some (Inl e)
                               | Inr xs \<Rightarrow>
                                   (case getitem xs 0 of
                                      Inl e \<Rightarrow> Some (Inl e)
                                    | Inr x0 \<Rightarrow>
                                        (case items_of x0 of
                                           Inl e \<Rightarrow> Some (Inl e)
                                         | Inr ys \<Rightarrow>
                                             (case (if length ys = 1 then Inr None
                                                    else map_sum id Some (getitem ys 1)) of
                                                Inl e \<Rightarrow> Some (Inl e)
                                              | Inr v \<Rightarrow>
                                                  (case getitem ys 0 of
                                                     Inl e \<Rightarrow> Some (Inl e)
                                                   | Inr oid \<Rightarrow>
                                                       Some (Inr (request_id, oid, v))))))))))))"

section \<open>Reading an octet sequence as a number\<close>



section \<open>Facts about the bit operations and the primitives\<close>

lemma bit_128_iff: "bit (128::int) n = (n = 7)"
proof -
  have "bit ((2::int) ^ 7) n = (n = 7)" by (simp only: bit_exp_iff) auto
  then show ?thesis by simp
qed

lemma bit_below_128: "0 \<le> d \<Longrightarrow> d < 128 \<Longrightarrow> bit (d::int) n \<Longrightarrow> n < 7"
proof -
  assume a: "0 \<le> d" "d < 128" "bit d n"
  have "take_bit 7 d = d" using a by (simp add: take_bit_int_eq_self)
  then show ?thesis using a(3) by (metis bit_take_bit_iff)
qed

lemma and_128_eq_0: "0 \<le> d \<Longrightarrow> d < 128 \<Longrightarrow> (d::int) AND 128 = 0"
  by (rule bit_eqI) (auto simp add: bit_and_iff bit_128_iff dest: bit_below_128)

lemma or_128: "0 \<le> d \<Longrightarrow> d < 128 \<Longrightarrow> (d::int) OR 128 = d + 128"
  by (simp add: and_128_eq_0 flip: disjunctive_add_eq_or)

lemma xor_128: "128 \<le> d \<Longrightarrow> d < 256 \<Longrightarrow> (d::int) XOR 128 = d - 128"
proof -
  assume a: "128 \<le> d" "d < 256"
  define e where "e = d - 128"
  have e: "0 \<le> e" "e < 128" "d = e + 128" using a by (simp_all add: e_def)
  have d: "d = e OR 128" using e or_128 by simp
  have "(e OR 128) XOR 128 = e" 
    by (rule bit_eqI) (auto simp add: bit_xor_iff bit_or_iff bit_128_iff dest: bit_below_128 [OF e(1,2)])
  then show ?thesis using d e by simp
qed

lemma and_128_iff: "((n::int) AND 128 \<noteq> 0) = bit n 7"
proof -
  have "(n AND 2 ^ 7 \<noteq> 0) = bit n 7" by (simp only: and_exp_eq_0_iff_not_bit not_not)
  then show ?thesis by simp
qed

lemma bit7_iff_mod: "bit (n::int) 7 \<longleftrightarrow> 128 \<le> n mod 256"
proof -
  have "n mod (128 * 2) = 128 * ((n div 128) mod 2) + n mod 128"
    by (rule zmod_zmult2_eq) simp
  moreover have "0 \<le> n mod 128" "n mod 128 < 128" by simp_all
  moreover have "(n div 128) mod 2 = 0 \<or> (n div 128) mod 2 = 1" by presburger
  ultimately show ?thesis by (auto simp add: bit_iff_odd odd_iff_mod_2_eq_one)
qed

lemma uint_byte_bounds: "0 \<le> uint (b::byte)" "uint (b::byte) < 256"
  using uint_lt2p [of b] by simp_all


lemma and_127: "(v::int) AND 127 = v mod 128"
proof -
  have "(127::int) = mask 7" by (simp add: mask_eq_exp_minus_1)
  then show ?thesis by (simp only: take_bit_eq_mod flip: take_bit_eq_mask) simp
qed

lemma uint_word_of_int_byte: "0 \<le> x \<Longrightarrow> x < 256 \<Longrightarrow> uint (word_of_int x :: byte) = x"
  by (simp add: uint_word_of_int_eq take_bit_int_eq_self)

section \<open>The length codec\<close>

text \<open>
  C4 (amended). \<open>encode_length(n)\<close> returns \<open>n\<close> itself, the single length octet, for
  every \<open>0 \<le> n < 128\<close>, in particular for 127. For 128 it does not produce the long form
  \<open>[0x81, 0x80]\<close>: it raises \<open>NotImplementedError\<close>.
\<close>

theorem encode_length_short_form:
  "(0 \<le> n \<and> n < 128 \<longrightarrow> encode_length n = Inr n)
   \<and> encode_length 128 = Inl NotImplementedError"
  by (simp add: encode_length_def and_128_eq_0)

theorem encode_length_short_form_witness:
  "(0::int) \<le> 127 \<and> (127::int) < 128 \<and> encode_length 127 = Inr 127"
  using encode_length_short_form [of 127] by simp

text \<open>
  C4 as stated fails: \<open>encode_length(128)\<close> raises instead of returning the long form.
\<close>

theorem encode_length_128_counterexample:
  "encode_length 128 = Inl NotImplementedError"
  by (simp add: encode_length_def)

text \<open>
  C9. \<open>encode_length\<close> raises \<open>NotImplementedError\<close> exactly for the inputs whose bit 7
  is set, that is those with \<open>128 \<le> n % 256\<close>; every \<open>n \<ge> 256\<close> with bit 7 clear, such
  as 256, is returned unchanged without error.
\<close>

theorem encode_length_rejects_iff_bit7:
  "(encode_length n = Inl NotImplementedError) = bit n 7
   \<and> bit n 7 = (128 \<le> n mod 256)
   \<and> (256 \<le> n \<and> \<not> bit n 7 \<longrightarrow> encode_length n = Inr n)"
  using bit7_iff_mod [of n] by (simp add: encode_length_def and_128_iff)

theorem encode_length_rejects_iff_bit7_witness:
  "(256::int) \<le> 256 \<and> \<not> bit (256::int) 7 \<and> encode_length 256 = Inr 256"
  using encode_length_rejects_iff_bit7 [of 256] by simp

lemma int_from_bytes_Nil: "int_from_bytes [] = 0"
  by (simp add: int_from_bytes_def)

lemma int_from_bytes_snoc: "int_from_bytes (bs @ [b]) = 256 * int_from_bytes bs + uint b"
  by (simp add: int_from_bytes_def)

lemma int_from_bytes_nonneg: "0 \<le> int_from_bytes bs"
  by (induction bs rule: rev_induct) (simp_all add: int_from_bytes_Nil int_from_bytes_snoc)

lemma int_from_bytes_single: "int_from_bytes [b] = uint b"
  by (simp add: int_from_bytes_def)

text \<open>
  C5. \<open>consume_length\<close> on an input with first octet \<open>d0\<close>: when the top bit of \<open>d0\<close> is
  clear, the length is the value of \<open>d0\<close> and the rest of the input is returned with it;
  when \<open>d0\<close> is the long-form marker \<open>0x80 | N\<close> with \<open>N\<close> in 1..126, the length is the
  big-endian integer of the following \<open>N\<close> octets (of those that are there when fewer than
  \<open>N\<close> follow) and the input after them is returned; for \<open>d0 = 0xFF\<close> and for
  \<open>d0 = 0x80\<close> it raises \<open>NotImplementedError\<close>.
\<close>

theorem consume_length_forms:
  "(uint d0 AND 128 = 0 \<longrightarrow> consume_length (d0 # rest) = Inr (uint d0, rest))
   \<and> (1 \<le> N \<and> N \<le> 126 \<and> uint d0 = 128 OR int N \<longrightarrow>
        consume_length (d0 # rest) = Inr (int_from_bytes (take N rest), drop N rest))
   \<and> (uint d0 = 255 \<longrightarrow> consume_length (d0 # rest) = Inl NotImplementedError)
   \<and> (uint d0 = 128 \<longrightarrow> consume_length (d0 # rest) = Inl NotImplementedError)"
proof (intro conjI impI)
  assume "uint d0 AND 128 = 0"
  moreover from this have "uint d0 \<noteq> 255" by auto
  ultimately show "consume_length (d0 # rest) = Inr (uint d0, rest)"
    by (simp add: consume_length_def int_from_bytes_single)
next
  assume a: "1 \<le> N \<and> N \<le> 126 \<and> uint d0 = 128 OR int N"
  then have eq: "uint d0 = int N + 128"
    using or_128 [of "int N"] by (simp add: or.commute)
  have x: "uint d0 XOR 128 = int N"
    using a xor_128 [of "uint d0"] eq by simp
  have n: "uint d0 AND 128 \<noteq> 0"
    using bit7_iff_mod [of "uint d0"] a eq by (simp add: and_128_iff)
  show "consume_length (d0 # rest) = Inr (int_from_bytes (take N rest), drop N rest)"
    using a n x eq by (simp add: consume_length_def Let_def)
next
  assume "uint d0 = 255"
  then show "consume_length (d0 # rest) = Inl NotImplementedError"
    by (simp add: consume_length_def)
next
  assume "uint d0 = 128"
  then show "consume_length (d0 # rest) = Inl NotImplementedError"
    by (simp add: consume_length_def)
qed

theorem consume_length_forms_witness:
  "consume_length [0x26, 0xAA] = Inr (38, [0xAA])
   \<and> consume_length [0x82, 0x01, 0x02, 0x03] = Inr (258, [0x03])
   \<and> consume_length [0xFF, 0x01] = Inl NotImplementedError
   \<and> consume_length [0x80, 0x01] = Inl NotImplementedError"
  using consume_length_forms [where ?d0.0 = "0x26" and rest = "[0xAA]" and N = 1]
    consume_length_forms [where ?d0.0 = "0x82" and rest = "[0x01, 0x02, 0x03]" and N = 2]
    consume_length_forms [where ?d0.0 = "0xFF" and rest = "[0x01]" and N = 1]
    consume_length_forms [where ?d0.0 = "0x80" and rest = "[0x01]" and N = 1]
  by (simp add: int_from_bytes_def)

section \<open>Evaluating the decoder\<close>

lemmas decoder_simps = consume.simps List_from_bytes_loop.simps List_from_bytes.simps
  GetResponse_from_bytes.simps consume_length_def Integer_from_bytes_def String_from_bytes_def
  Oid_from_bytes_def int_from_bytes_def Let_def

lemmas eval_simps = decoder_simps Oid_init_def encode_large_value_def encode_length_def
  items_0_items_1_def getitem_def ascii_decode_def String_init_def bytes_of_def Oid_bytes_def

text \<open>
  What the two decoders do with the error-status object they have read: a true
  \<open>error_code.value\<close> raises \<open>SnmpError\<close>, and a response is returned only when it is false.
\<close>

lemma GetResponse_from_bytes_raises:
  assumes "consume_length rest = Inr (expected_length, data1)"
    and "int (length data1) = expected_length"
    and "consume data1 = Some (Inr (request_id, data2))"
    and "consume data2 = Some (Inr (error_code, data3))"
    and "consume data3 = Some (Inr (error_index, data4))"
    and "value_truthy error_code = Inr True"
  shows "GetResponse_from_bytes (0xa2 # rest) = Some (Inl SnmpError)"
  using assms by (simp add: GetResponse_from_bytes.simps)

lemma GetResponse_from_bytes_returns:
  assumes "GetResponse_from_bytes data = Some (Inr response)"
  shows "\<exists>expected_length data1 request_id data2 error_code data3.
           consume_length (drop 1 data) = Inr (expected_length, data1)
         \<and> consume data1 = Some (Inr (request_id, data2))
         \<and> consume data2 = Some (Inr (error_code, data3))
         \<and> value_truthy error_code = Inr False"
  using assms
  by (simp add: GetResponse_from_bytes.simps
        split: list.splits if_splits sum.splits option.splits bool.splits prod.splits)

lemma GetResponse_decode_raises:
  assumes "pop_tlv pdu = Some (Inr (request_id, pdu2))"
    and "pop_tlv pdu2 = Some (Inr (error_code, pdu3))"
    and "pop_tlv pdu3 = Some (Inr (error_index, pdu4))"
    and "value_true error_code = Inr True"
  shows "GetResponse_decode pop_tlv value_true items_of pdu = Some (Inl SnmpError)"
  using assms by (simp add: GetResponse_decode_def)

lemma GetResponse_decode_returns:
  assumes "GetResponse_decode pop_tlv value_true items_of pdu = Some (Inr response)"
  shows "\<exists>request_id pdu2 error_code pdu3.
           pop_tlv pdu = Some (Inr (request_id, pdu2))
         \<and> pop_tlv pdu2 = Some (Inr (error_code, pdu3))
         \<and> value_true error_code = Inr False"
  using assms
  by (simp add: GetResponse_decode_def
        split: if_splits sum.splits option.splits bool.splits prod.splits)

section \<open>Integer decoding\<close>

text \<open>
  C10. \<open>Integer.from_bytes\<close> reads the content octets with \<open>int.from_bytes(value, 'big')\<close>,
  an unsigned big-endian integer: whenever it accepts its input, the \<open>Integer\<close> it returns
  holds that number, which is not negative, also when the first content octet has its most
  significant bit set (\<open>02 01 FF\<close> decodes to 255).
\<close>

theorem Integer_from_bytes_nonneg:
  "Integer_from_bytes data = Inr obj \<Longrightarrow>
     \<exists>len content. consume_length (drop 1 data) = Inr (len, content)
        \<and> obj = Integer (int_from_bytes content) \<and> 0 \<le> int_from_bytes content"
  by (auto simp: Integer_from_bytes_def int_from_bytes_nonneg
        split: list.splits if_splits sum.splits)

theorem Integer_from_bytes_nonneg_witness:
  "Integer_from_bytes [0x02, 0x01, 0xFF] = Inr (Integer 255)
   \<and> (\<exists>len content. consume_length (drop 1 [0x02, 0x01, 0xFF]) = Inr (len, content)
        \<and> Integer 255 = Integer (int_from_bytes content) \<and> 0 \<le> int_from_bytes content)"
proof -
  have h: "Integer_from_bytes [0x02, 0x01, 0xFF] = Inr (Integer 255)"
    by (simp add: Integer_from_bytes_def consume_length_def int_from_bytes_def)
  from Integer_from_bytes_nonneg [OF h] h show ?thesis by simp
qed

section \<open>Unknown type octets\<close>

text \<open>
  C7 (amended). \<open>consume\<close> decodes the length field before it looks at the type octet. On
  an input whose type octet \<open>t\<close> is none of \<open>0x02\<close>, \<open>0x04\<close>, \<open>0x30\<close>, \<open>0x05\<close>, \<open>0xa2\<close>,
  \<open>0x06\<close> it never returns a value: when the length field after \<open>t\<close> decodes, it raises the
  \<open>ValueError\<close> \<open>Unknown type header\<close> naming \<open>t\<close>; when the length field is missing,
  reserved or indefinite, it raises the error of \<open>consume_length\<close> instead.
\<close>

theorem consume_unknown_type:
  "uint t \<notin> {0x02, 0x04, 0x30, 0x05, 0xa2, 0x06} \<Longrightarrow>
     consume (t # rest) =
       (case consume_length rest of
          Inl e \<Rightarrow> Some (Inl e)
        | Inr (len, remainder) \<Rightarrow> Some (Inl (ValueError (UnknownTypeHeader (uint t)))))
     \<and> (\<forall>v remainder. consume (t # rest) \<noteq> Some (Inr (v, remainder)))"
  by (auto simp add: consume.simps Let_def split: sum.splits)

theorem consume_unknown_type_witness:
  "uint (0x07 :: byte) \<notin> {0x02, 0x04, 0x30, 0x05, 0xa2, 0x06}
   \<and> consume [0x07, 0x00] = Some (Inl (ValueError (UnknownTypeHeader 7)))
   \<and> (\<forall>v remainder. consume [0x07, 0x00] \<noteq> Some (Inr (v, remainder)))"
proof -
  have h: "uint (0x07 :: byte) \<notin> {0x02, 0x04, 0x30, 0x05, 0xa2, 0x06}" by simp
  from consume_unknown_type [OF h, of "[0x00]"] h show ?thesis
    by (simp add: consume_length_def int_from_bytes_def)
qed

text \<open>
  C7 as stated fails: the type octet \<open>0x07\<close> followed by the reserved length octet \<open>0xFF\<close>
  raises \<open>NotImplementedError\<close>, not the unknown-type \<open>ValueError\<close>.
\<close>

theorem consume_unknown_type_counterexample:
  "consume [0x07, 0xFF] = Some (Inl NotImplementedError)"
  by (simp add: decoder_simps)

section \<open>Declared and actual length\<close>

text \<open>
  Of the decoders only \<open>GetResponse.from_bytes\<close> compares the declared length with the
  number of octets that follow: a mismatch raises the \<open>ValueError\<close> \<open>Corrupt packet\<close>.
\<close>

lemma GetResponse_from_bytes_length_mismatch:
  assumes "consume_length rest = Inr (expected_length, data1)"
    and "int (length data1) \<noteq> expected_length"
  shows "GetResponse_from_bytes (0xa2 # rest)
         = Some (Inl (ValueError (CorruptPacket expected_length (int (length data1)))))"
  using assms by (simp add: GetResponse_from_bytes.simps)

text \<open>
  C6 fails on the code. The input \<open>02 05 01\<close> declares five content octets and carries one:
  \<open>consume\<close> returns \<open>Integer(1)\<close> with nothing left over, and raises no error.
\<close>

theorem consume_truncated_Integer:
  "consume_length [0x05, 0x01] = Inr (5, [0x01])
   \<and> consume [0x02, 0x05, 0x01] = Some (Inr (Integer 1, []))"
  by (simp add: decoder_simps)

section \<open>The error status of a response\<close>

text \<open>
  \<open>consume\<close> cuts the chunk it hands to a decoder as \<open>data[:length+2]\<close>: the type octet,
  one length octet and the content. A length field in the long form is longer than one
  octet, so the chunk then ends before the content does; \<open>remainder[length:]\<close>, computed
  from the result of \<open>consume_length\<close>, is right in both forms. An \<open>INTEGER\<close> with the
  length \<open>81 01\<close> therefore reaches \<open>Integer.from_bytes\<close> without its content octet and is
  read as zero.
\<close>

lemma consume_Integer_long_form:
  "consume (0x02 # 0x81 # 0x01 # c # rest) = Some (Inr (Integer 0, rest))"
  by (simp add: decoder_simps)

text \<open>
  C2 fails on the code. In the response below the error-status field is \<open>02 81 01 05\<close>: an
  \<open>INTEGER\<close> whose length field \<open>81 01\<close> declares one content octet, \<open>05\<close>, so the PDU carries
  the error-status 5. \<open>consume\<close> reads the field as \<open>Integer(0)\<close>, the test
  \<open>if error_code.value\<close> does not fire, and \<open>GetResponse.from_bytes\<close> returns the value of the
  varbind instead of raising \<open>SnmpError\<close>. With the same status in the short form,
  \<open>02 01 05\<close>, it raises.
\<close>

theorem GetResponse_from_bytes_long_form_status:
  "consume_length [0x81, 0x01, 0x05] = Inr (1, [0x05])
   \<and> int_from_bytes [0x05] = 5
   \<and> consume [0x02, 0x81, 0x01, 0x05] = Some (Inr (Integer 0, []))
   \<and> GetResponse_from_bytes
       [0xa2, 0x14, 0x02, 0x01, 0x00, 0x02, 0x81, 0x01, 0x05, 0x02, 0x01, 0x00,
        0x30, 0x08, 0x30, 0x06, 0x06, 0x01, 0x2b, 0x02, 0x01, 0x05]
     = Some (Inr (GetResponse (Integer 0) (Integer 5)))
   \<and> GetResponse_from_bytes
       [0xa2, 0x13, 0x02, 0x01, 0x00, 0x02, 0x01, 0x05, 0x02, 0x01, 0x00,
        0x30, 0x08, 0x30, 0x06, 0x06, 0x01, 0x2b, 0x02, 0x01, 0x05]
     = Some (Inl SnmpError)"
  by (simp add: eval_simps)

section \<open>The number of varbinds in a response\<close>

text \<open>
  C3 fails on the code. A \<open>GetResponse\<close> whose varbind list holds two varbinds is decoded
  without error: \<open>GetResponse.from_bytes\<close> returns the value of the first varbind and drops
  the second, alone and inside a whole message read by \<open>List.from_bytes\<close>. With no varbind
  the read of \<open>items[0]\<close> raises \<open>IndexError\<close>.
\<close>

theorem GetResponse_from_bytes_two_varbinds:
  "GetResponse_from_bytes
     [0xa2, 0x1b, 0x02, 0x01, 0x00, 0x02, 0x01, 0x00, 0x02, 0x01, 0x00,
      0x30, 0x10, 0x30, 0x06, 0x06, 0x01, 0x2b, 0x02, 0x01, 0x05,
                  0x30, 0x06, 0x06, 0x01, 0x2b, 0x02, 0x01, 0x07]
   = Some (Inr (GetResponse (Integer 0) (Integer 5)))
   \<and> List_from_bytes
     [0x30, 0x28, 0x02, 0x01, 0x01, 0x04, 0x06, 0x70, 0x75, 0x62, 0x6c, 0x69, 0x63,
      0xa2, 0x1b, 0x02, 0x01, 0x00, 0x02, 0x01, 0x00, 0x02, 0x01, 0x00,
      0x30, 0x10, 0x30, 0x06, 0x06, 0x01, 0x2b, 0x02, 0x01, 0x05,
                  0x30, 0x06, 0x06, 0x01, 0x2b, 0x02, 0x01, 0x07]
   = Some (Inr (List [Integer 1, String ''public'' 6, GetResponse (Integer 0) (Integer 5)]))
   \<and> GetResponse_from_bytes
     [0xa2, 0x0b, 0x02, 0x01, 0x00, 0x02, 0x01, 0x00, 0x02, 0x01, 0x00, 0x30, 0x00]
   = Some (Inl IndexError)"
  by (simp add: eval_simps char_of_eq_iff)

text \<open>
  \<open>GetResponse.decode\<close> of \<open>src/puresnmp/types.py\<close> reads the varbind list the same way:
  whatever follows the first varbind is ignored, and an empty list raises \<open>IndexError\<close>.
\<close>

lemma GetResponse_decode_first_varbind:
  assumes "pop_tlv pdu = Some (Inr (request_id, pdu2))"
    and "pop_tlv pdu2 = Some (Inr (error_code, pdu3))"
    and "pop_tlv pdu3 = Some (Inr (error_index, pdu4))"
    and "value_true error_code = Inr False"
    and "pop_tlv pdu4 = Some (Inr (values, pdu5))"
    and "items_of values = Inr (varbind # more_varbinds)"
    and "items_of varbind = Inr [oid, v]"
  shows "GetResponse_decode pop_tlv value_true items_of pdu = Some (Inr (request_id, oid, Some v))"
  using assms by (simp add: GetResponse_decode_def getitem_def)

lemma GetResponse_decode_no_varbind:
  assumes "pop_tlv pdu = Some (Inr (request_id, pdu2))"
    and "pop_tlv pdu2 = Some (Inr (error_code, pdu3))"
    and "pop_tlv pdu3 = Some (Inr (error_index, pdu4))"
    and "value_true error_code = Inr False"
    and "pop_tlv pdu4 = Some (Inr (values, pdu5))"
    and "items_of values = Inr []"
  shows "GetResponse_decode pop_tlv value_true items_of pdu = Some (Inl IndexError)"
  using assms by (simp add: GetResponse_decode_def getitem_def)

section \<open>Integer encoding\<close>
















text \<open>
  For a negative integer the loop \<open>while remainder\<close> never ends: \<open>remainder >> 8\<close> stays
  negative.
\<close>

lemma Integer_bytes_loop_Some_nonneg:
  assumes "Integer_bytes_loop r acc = Some y"
  shows "0 \<le> r"
proof (rule Integer_bytes_loop.raw_induct
         [where P = "\<lambda>r acc y. 0 \<le> r" and remainder = r and octets = acc and y = y])
  fix loop :: "int \<Rightarrow> int list \<Rightarrow> int list option" and remainder octets y'
  assume IH: "\<And>r b y. loop r b = Some y \<Longrightarrow> 0 \<le> r"
    and eq: "(if remainder \<noteq> 0
              then loop (drop_bit 8 remainder) (octets @ [remainder AND 255])
              else Some octets) = Some y'"
  show "0 \<le> remainder"
  proof (cases "remainder = 0")
    case True
    then show ?thesis by simp
  next
    case False
    with eq have "loop (drop_bit 8 remainder) (octets @ [remainder AND 255]) = Some y'"
      by simp
    from IH [OF this] show ?thesis
      by (simp add: drop_bit_eq_div pos_imp_zdiv_nonneg_iff)
  qed
next
  show "Integer_bytes_loop r acc = Some y" by (fact assms)
qed

lemma Integer_bytes_loop_negative: "r < 0 \<Longrightarrow> Integer_bytes_loop r acc = None"
  using Integer_bytes_loop_Some_nonneg [of r acc] by (cases "Integer_bytes_loop r acc") auto

lemma Integer_bytes_negative: "v < 0 \<Longrightarrow> Integer_bytes v = None"
  by (simp add: Integer_bytes_def Integer_octets_def Integer_bytes_loop_negative)

section \<open>Object identifiers\<close>

lemma encode_large_value_loop_pos:
  "0 < v \<Longrightarrow> encode_large_value_loop v out
     = encode_large_value_loop (v div 128) (out @ [v mod 128 + 128])"
  by (subst encode_large_value_loop.simps)
     (simp add: and_127 drop_bit_eq_div or_128)

lemma encode_large_value_loop_0: "encode_large_value_loop 0 out = Some out"
  by (subst encode_large_value_loop.simps) simp

lemma encode_large_value_loop_returns:
  "0 \<le> v \<Longrightarrow>
     \<exists>ds. (\<forall>out. encode_large_value_loop v out = Some (out @ ds))
        \<and> list_all (\<lambda>d. 128 \<le> d \<and> d < 256) ds
        \<and> foldr (\<lambda>d acc. (d - 128) + 128 * acc) ds 0 = v
        \<and> (v \<noteq> 0 \<longrightarrow> ds \<noteq> [])"
proof (induction "nat v" arbitrary: v rule: less_induct)
  case less
  show ?case
  proof (cases "v = 0")
    case True
    then show ?thesis
      by (intro exI [of _ "[]"]) (simp add: encode_large_value_loop_0)
  next
    case False
    with less.prems have pos: "0 < v" by simp
    then have "nat (v div 128) < nat v" "0 \<le> v div 128"
      by (simp_all add: pos_imp_zdiv_nonneg_iff nat_less_iff zdiv_mono2 div_less_dividend)
    from less.hyps [OF this] obtain ds where ds:
      "\<And>out. encode_large_value_loop (v div 128) out = Some (out @ ds)"
      "list_all (\<lambda>d. 128 \<le> d \<and> d < 256) ds"
      "foldr (\<lambda>d acc. (d - 128) + 128 * acc) ds 0 = v div 128"
      by blast
    have m: "0 \<le> v mod 128" "v mod 128 < 128" by simp_all
    show ?thesis
      using ds m pos
      by (intro exI [of _ "(v mod 128 + 128) # ds"])
         (simp add: encode_large_value_loop_pos)
  qed
qed

lemma decode_large_value_loop_run:
  assumes "list_all (\<lambda>d. 128 \<le> d \<and> d < 256) (c # hs)" "0 \<le> d0" "d0 < 128"
  shows "decode_large_value_loop c (map word_of_int hs @ word_of_int d0 # rest) buffer
         = Inr (d0, rest, buffer @ map (\<lambda>h. h - 128) (c # hs))"
  using assms
proof (induction hs arbitrary: c buffer)
  case Nil
  then show ?case
    by (simp add: decode_large_value_loop.simps [of c] decode_large_value_loop.simps [of d0]
          uint_word_of_int_byte xor_128)
next
  case (Cons h hs)
  then have "decode_large_value_loop h (map word_of_int hs @ word_of_int d0 # rest)
       (buffer @ [c - 128]) = Inr (d0, rest, (buffer @ [c - 128]) @ map (\<lambda>h. h - 128) (h # hs))"
    by (intro Cons.IH) simp_all
  with Cons.prems show ?case
    by (simp add: decode_large_value_loop.simps [of c] uint_word_of_int_byte xor_128)
qed

lemma foldl_enumerate_base128:
  "foldl (\<lambda>total (i, digit). total + digit * 128 ^ (i + 1)) t0 (enumerate n xs)
     = t0 + 128 ^ (n + 1) * foldr (\<lambda>d acc. d + 128 * acc) xs 0" for t0 :: int
  by (induction xs arbitrary: n t0) (simp_all add: algebra_simps)

lemma foldr_map_minus:
  "foldr (\<lambda>d acc. d + 128 * acc) (map (\<lambda>h. h - 128) ds) (0::int)
     = foldr (\<lambda>d acc. (d - 128) + 128 * acc) ds 0"
  by (induction ds) simp_all


lemma decode_large_value_run:
  assumes "list_all (\<lambda>d. 128 \<le> d \<and> d < 256) (c # hs)" "0 \<le> d0" "d0 < 128"
  shows "decode_large_value c (map word_of_int hs @ word_of_int d0 # rest)
         = Inr (d0 + 128 * foldr (\<lambda>d acc. (d - 128) + 128 * acc) (rev (c # hs)) 0, rest)"
proof -
  have loop: "decode_large_value_loop c (map word_of_int hs @ word_of_int d0 # rest) []
      = Inr (d0, rest, map (\<lambda>h. h - 128) (c # hs))"
    using decode_large_value_loop_run [OF assms, of rest "[]"] by simp
  have "foldl (\<lambda>total (i, digit). total + digit * 128 ^ (i + 1)) d0
          (enumerate 0 (map (\<lambda>h. h - 128) (rev (c # hs))))
        = d0 + 128 ^ (0 + 1) * foldr (\<lambda>d acc. d + 128 * acc)
            (map (\<lambda>h. h - 128) (rev (c # hs))) 0"
    by (rule foldl_enumerate_base128)
  then have total: "foldl (\<lambda>total (i, digit). total + digit * 128 ^ (i + 1)) d0
          (enumerate 0 (rev (map (\<lambda>h. h - 128) (c # hs))))
        = d0 + 128 * foldr (\<lambda>d acc. (d - 128) + 128 * acc) (rev (c # hs)) 0"
    by (simp only: rev_map foldr_map_minus add_0 power_one_right)
  show ?thesis
    by (simp only: decode_large_value_def loop sum.case prod.case total)
qed

lemma encode_large_value_roundtrip:
  assumes "0 \<le> v"
  shows "\<exists>es. encode_large_value v = Some es
           \<and> list_all (\<lambda>x. 0 \<le> x \<and> x < 256) es
           \<and> (\<forall>rest out. from_bytes_loop (map word_of_int es @ rest) out
                             = from_bytes_loop rest (out @ [v]))"
proof (cases "v \<le> 127")
  case True
  with assms show ?thesis
    by (intro exI [of _ "[v]"]) (simp add: encode_large_value_def uint_word_of_int_byte)
next
  case False
  then have big: "127 < v" by simp
  then have d: "0 \<le> v div 128" "v div 128 \<noteq> 0"
    by (simp_all add: pos_imp_zdiv_nonneg_iff div_eq_0_iff)
  from encode_large_value_loop_returns [OF d(1)] d(2) obtain ds where ds:
    "\<And>out. encode_large_value_loop (v div 128) out = Some (out @ ds)"
    "list_all (\<lambda>d. 128 \<le> d \<and> d < 256) ds"
    "foldr (\<lambda>d acc. (d - 128) + 128 * acc) ds 0 = v div 128"
    "ds \<noteq> []"
    by blast
  from ds(4) obtain c hs where r: "rev ds = c # hs" by (cases "rev ds") auto
  then have ds_eq: "ds = rev (c # hs)" by (metis rev_rev_ident)
  from ds(2) have ok: "list_all (\<lambda>d. 128 \<le> d \<and> d < 256) (c # hs)"
    by (simp add: ds_eq list_all_iff)
  have m: "0 \<le> v mod 128" "v mod 128 < 128" by simp_all
  have enc: "encode_large_value v = Some (c # hs @ [v mod 128])"
    using big ds(1) [of "[v mod 128]"] r
    by (simp add: encode_large_value_def and_127 drop_bit_eq_div)
  have range: "list_all (\<lambda>x. 0 \<le> x \<and> x < 256) (c # hs @ [v mod 128])"
    using ok m by (auto simp: list_all_iff)
  have dec: "decode_large_value c (map word_of_int hs @ word_of_int (v mod 128) # rest)
        = Inr (v, rest)" for rest
    using decode_large_value_run [OF ok m, of rest] ds(3)
    by (simp only: ds_eq [symmetric]) simp
  have "from_bytes_loop (map word_of_int (c # hs @ [v mod 128]) @ rest) out
          = from_bytes_loop rest (out @ [v])" for rest out
    using ok dec [of rest] by (simp add: uint_word_of_int_byte)
  with enc range show ?thesis by blast
qed

lemma collapsed_loop_roundtrip:
  assumes "\<forall>v\<in>set vs. 0 \<le> v"
  shows "\<exists>cs. (\<forall>acc. collapsed_loop vs acc = Some (acc @ cs))
           \<and> list_all (\<lambda>x. 0 \<le> x \<and> x < 256) cs
           \<and> (\<forall>out. from_bytes_loop (map word_of_int cs) out = Inr (out @ vs))"
  using assms
proof (induction vs)
  case Nil
  then show ?case by (intro exI [of _ "[]"]) simp
next
  case (Cons v vs)
  then obtain cs where cs: "\<And>acc. collapsed_loop vs acc = Some (acc @ cs)"
    "list_all (\<lambda>x. 0 \<le> x \<and> x < 256) cs"
    "\<And>out. from_bytes_loop (map word_of_int cs) out = Inr (out @ vs)"
    by auto
  from Cons.prems have "0 \<le> v" by simp
  from encode_large_value_roundtrip [OF this] obtain es where es:
    "encode_large_value v = Some es" "list_all (\<lambda>x. 0 \<le> x \<and> x < 256) es"
    "\<And>rest out. from_bytes_loop (map word_of_int es @ rest) out
                             = from_bytes_loop rest (out @ [v])"
    by blast
  show ?case
    using cs es by (intro exI [of _ "es @ cs"]) simp
qed

lemma exploded_loop_returns:
  assumes "\<forall>v\<in>set vs. 0 \<le> v"
  shows "\<exists>xs. exploded_loop vs acc = Some xs"
  using assms
proof (induction vs arbitrary: acc)
  case Nil
  then show ?case by simp
next
  case (Cons v vs)
  then have "0 \<le> v" by simp
  from encode_large_value_roundtrip [OF this] obtain es where "encode_large_value v = Some es"
    by blast
  with Cons show ?case by simp
qed


lemma Oid_init_returns:
  assumes "\<forall>x\<in>set ids. 0 \<le> x" and "2 \<le> length ids"
  shows "\<exists>cs. (\<forall>acc. collapsed_loop (drop 2 ids) acc = Some (acc @ cs))
           \<and> list_all (\<lambda>x. 0 \<le> x \<and> x < 256) cs
           \<and> (\<forall>out. from_bytes_loop (map word_of_int cs) out = Inr (out @ drop 2 ids))
           \<and> Oid_init ids =
               (case encode_length (int (length ((40 * ids ! 0 + ids ! 1) # cs))) of
                  Inl e \<Rightarrow> Some (Inl e)
                | Inr len \<Rightarrow>
                    Some (Inr \<lparr>identifiers = ids,
                               collapsed_identifiers = (40 * ids ! 0 + ids ! 1) # cs,
                               oid_length = len\<rparr>))"
proof -
  from assms(1) have rest: "\<forall>v\<in>set (drop 2 ids). 0 \<le> v"
    by (auto dest: in_set_dropD)
  from collapsed_loop_roundtrip [OF rest] obtain cs where cs:
    "\<And>acc. collapsed_loop (drop 2 ids) acc = Some (acc @ cs)"
    "list_all (\<lambda>x. 0 \<le> x \<and> x < 256) cs"
    "\<And>out. from_bytes_loop (map word_of_int cs) out = Inr (out @ drop 2 ids)"
    by blast
  from exploded_loop_returns [OF rest, of "[]"] obtain xs where
    xs: "exploded_loop (drop 2 ids) [] = Some xs" by blast
  have "Oid_init ids =
               (case encode_length (int (length ((40 * ids ! 0 + ids ! 1) # cs))) of
                  Inl e \<Rightarrow> Some (Inl e)
                | Inr len \<Rightarrow>
                    Some (Inr \<lparr>identifiers = ids,
                               collapsed_identifiers = (40 * ids ! 0 + ids ! 1) # cs,
                               oid_length = len\<rparr>))"
    using assms(2) by (simp add: Oid_init_def Let_def xs cs(1) split: sum.splits)
  with cs show ?thesis by blast
qed

lemma short_length_octet:
  assumes "encode_length n = Inr len" "0 \<le> len" "len < 256"
  shows "len = n" "len < 128" "len AND 128 = 0"
proof -
  from assms(1) show n: "len = n" and a: "len AND 128 = 0"
    by (auto simp: encode_length_def split: if_splits)
  from a have "\<not> bit len 7" using and_128_iff [of len] by simp
  then have "len mod 256 < 128" by (simp add: bit7_iff_mod)
  with assms(2,3) show "len < 128" by simp
qed

text \<open>
  When the encoder accepts a sequence of non-negative integers: the first two components
  must fit one octet, and the packed identifiers must fill fewer than 128 octets.
\<close>

lemma Oid_encode_returns_iff:
  assumes nonneg: "\<forall>x\<in>set ids. 0 \<le> x" and len2: "2 \<le> length ids"
  shows "(\<exists>oid bs. Oid_init ids = Some (Inr oid) \<and> Oid_bytes oid = Inr bs)
         \<longleftrightarrow> (40 * ids ! 0 + ids ! 1 < 256
              \<and> (\<exists>cs. collapsed_loop (drop 2 ids) [] = Some cs \<and> 1 + length cs < 128))"
proof -
  define c0 where "c0 = 40 * ids ! 0 + ids ! 1"
  from Oid_init_returns [OF nonneg len2] obtain cs where cs:
    "\<And>acc. collapsed_loop (drop 2 ids) acc = Some (acc @ cs)"
    "list_all (\<lambda>x. 0 \<le> x \<and> x < 256) cs"
    "Oid_init ids =
       (case encode_length (int (length (c0 # cs))) of
          Inl e \<Rightarrow> Some (Inl e)
        | Inr len \<Rightarrow>
            Some (Inr \<lparr>identifiers = ids, collapsed_identifiers = c0 # cs, oid_length = len\<rparr>))"
    unfolding c0_def by blast
  from len2 obtain a b r where ids: "ids = a # b # r"
    by (cases ids; cases "tl ids") auto
  with nonneg have c0_nonneg: "0 \<le> c0" by (simp add: c0_def)
  show ?thesis
  proof
    assume "\<exists>oid bs. Oid_init ids = Some (Inr oid) \<and> Oid_bytes oid = Inr bs"
    then obtain oid bs where init: "Oid_init ids = Some (Inr oid)"
      and bytes: "Oid_bytes oid = Inr bs" by blast
    from init cs(3) obtain len where len:
      "encode_length (int (length (c0 # cs))) = Inr len"
      and oid: "oid = \<lparr>identifiers = ids, collapsed_identifiers = c0 # cs, oid_length = len\<rparr>"
      by (cases "encode_length (int (length (c0 # cs)))") auto
    from bytes have range: "0 \<le> len" "len < 256" "c0 < 256"
      by (auto simp: Oid_bytes_def bytes_of_def oid split: if_splits)
    from short_length_octet [OF len range(1,2)] have "1 + length cs < 128" by simp
    with range(3) cs(1) [of "[]"] show "40 * ids ! 0 + ids ! 1 < 256
        \<and> (\<exists>cs. collapsed_loop (drop 2 ids) [] = Some cs \<and> 1 + length cs < 128)"
      by (simp add: c0_def)
  next
    assume "40 * ids ! 0 + ids ! 1 < 256
        \<and> (\<exists>cs. collapsed_loop (drop 2 ids) [] = Some cs \<and> 1 + length cs < 128)"
    with cs(1) [of "[]"] have c0: "c0 < 256" and short: "1 + length cs < 128"
      by (auto simp: c0_def)
    from short have "encode_length (int (length (c0 # cs))) = Inr (int (length (c0 # cs)))"
      by (simp add: encode_length_def and_128_eq_0)
    with cs(3) have init: "Oid_init ids = Some (Inr \<lparr>identifiers = ids,
        collapsed_identifiers = c0 # cs, oid_length = int (length (c0 # cs))\<rparr>)"
      by simp
    moreover from c0 c0_nonneg short cs(2)
    have "\<exists>bs. Oid_bytes \<lparr>identifiers = ids,
        collapsed_identifiers = c0 # cs, oid_length = int (length (c0 # cs))\<rparr> = Inr bs"
      by (simp add: Oid_bytes_def bytes_of_def)
    ultimately show "\<exists>oid bs. Oid_init ids = Some (Inr oid) \<and> Oid_bytes oid = Inr bs"
      by blast
  qed
qed

text \<open>
  C1 (amended). For every sequence of non-negative integers that \<open>Oid\<close> encodes, that is,
  for which \<open>Oid(*ids)\<close> is constructed and its \<open>__bytes__\<close> returns, \<open>Oid.from_bytes\<close> of
  these bytes returns an \<open>Oid\<close> equal to the original under \<open>Oid.__eq__\<close>, which compares the
  packed identifiers; components greater than 127 are included. The decoded component list
  is the original one whenever the second component is below 40.
\<close>

theorem Oid_roundtrip:
  assumes nonneg: "\<forall>x\<in>set ids. 0 \<le> x"
    and init: "Oid_init ids = Some (Inr oid)"
    and bytes: "Oid_bytes oid = Inr bs"
  shows "\<exists>oid'. Oid_from_bytes bs = Some (Inr oid') \<and> Oid_eq oid' oid
           \<and> (ids ! 1 < 40 \<longrightarrow> identifiers oid' = ids)"
proof -
  from init have len2: "2 \<le> length ids"
    by (cases "length ids < 2") (simp_all add: Oid_init_def)
  define c0 where "c0 = 40 * ids ! 0 + ids ! 1"
  from Oid_init_returns [OF nonneg len2] obtain cs where cs:
    "\<And>acc. collapsed_loop (drop 2 ids) acc = Some (acc @ cs)"
    "list_all (\<lambda>x. 0 \<le> x \<and> x < 256) cs"
    "\<And>out. from_bytes_loop (map word_of_int cs) out = Inr (out @ drop 2 ids)"
    "Oid_init ids =
       (case encode_length (int (length (c0 # cs))) of
          Inl e \<Rightarrow> Some (Inl e)
        | Inr len \<Rightarrow>
            Some (Inr \<lparr>identifiers = ids, collapsed_identifiers = c0 # cs, oid_length = len\<rparr>))"
    unfolding c0_def by blast
  from init cs(4) obtain len where len:
    "encode_length (int (length (c0 # cs))) = Inr len"
    and oid: "oid = \<lparr>identifiers = ids, collapsed_identifiers = c0 # cs, oid_length = len\<rparr>"
    by (cases "encode_length (int (length (c0 # cs)))") auto
  from bytes have range: "0 \<le> len" "len < 256" "0 \<le> c0" "c0 < 256"
    and bs: "bs = 6 # word_of_int len # word_of_int c0 # map word_of_int cs"
    by (auto simp: Oid_bytes_def bytes_of_def oid split: if_splits)
  note short = short_length_octet [OF len range(1,2)]
  have cl: "consume_length (word_of_int len # word_of_int c0 # map word_of_int cs)
              = Inr (len, word_of_int c0 # map word_of_int cs)"
    using short(2,3) range(1,2)
    by (simp add: consume_length_def uint_word_of_int_byte int_from_bytes_def)
  define ids' where "ids' = [c0 div 40, c0 mod 40] @ drop 2 ids"
  have nonneg': "\<forall>x\<in>set ids'. 0 \<le> x"
    using nonneg range(3) by (auto simp: ids'_def pos_imp_zdiv_nonneg_iff dest: in_set_dropD)
  have len2': "2 \<le> length ids'" by (simp add: ids'_def)
  have c0': "40 * ids' ! 0 + ids' ! 1 = c0" by (simp add: ids'_def)
  have drop': "drop 2 ids' = drop 2 ids" by (simp add: ids'_def)
  from Oid_init_returns [OF nonneg' len2'] obtain cs' where cs':
    "\<And>acc. collapsed_loop (drop 2 ids) acc = Some (acc @ cs')"
    "Oid_init ids' =
       (case encode_length (int (length (c0 # cs'))) of
          Inl e \<Rightarrow> Some (Inl e)
        | Inr len \<Rightarrow>
            Some (Inr \<lparr>identifiers = ids', collapsed_identifiers = c0 # cs', oid_length = len\<rparr>))"
    unfolding c0' drop' by blast
  from cs(1) [of "[]"] cs'(1) [of "[]"] have same: "cs' = cs" by simp
  have init': "Oid_init ids'
      = Some (Inr \<lparr>identifiers = ids', collapsed_identifiers = c0 # cs, oid_length = len\<rparr>)"
    using cs'(2) len by (simp add: same)
  have dec: "Oid_from_bytes bs
      = Some (Inr \<lparr>identifiers = ids', collapsed_identifiers = c0 # cs, oid_length = len\<rparr>)"
    using cl cs(3) [of "[c0 div 40, c0 mod 40]"] init' range(3,4)
    by (simp add: Oid_from_bytes_def bs uint_word_of_int_byte ids'_def)
  have "ids' = ids" if "ids ! 1 < 40"
  proof -
    from len2 obtain a b r where ids: "ids = a # b # r"
      by (cases ids; cases "tl ids") auto
    with nonneg that have "0 \<le> b" "b < 40" by simp_all
    then have "(40 * a + b) div 40 = a" "(40 * a + b) mod 40 = b" by simp_all
    then show ?thesis by (simp add: ids'_def c0_def ids)
  qed
  with dec show ?thesis by (simp add: Oid_eq_def oid)
qed

theorem Oid_roundtrip_witness:
  "list_all (\<lambda>x. 0 \<le> x) [1, 3, 6, 1, 4, 1, 8072, 3, 2, 10 :: int]
   \<and> Oid_init [1, 3, 6, 1, 4, 1, 8072, 3, 2, 10]
       = Some (Inr \<lparr>identifiers = [1, 3, 6, 1, 4, 1, 8072, 3, 2, 10],
                    collapsed_identifiers = [43, 6, 1, 4, 1, 191, 8, 3, 2, 10],
                    oid_length = 10\<rparr>)
   \<and> Oid_bytes \<lparr>identifiers = [1, 3, 6, 1, 4, 1, 8072, 3, 2, 10],
                  collapsed_identifiers = [43, 6, 1, 4, 1, 191, 8, 3, 2, 10],
                  oid_length = 10\<rparr>
       = Inr [0x06, 0x0a, 0x2b, 0x06, 0x01, 0x04, 0x01, 0xbf, 0x08, 0x03, 0x02, 0x0a]
   \<and> (\<exists>oid'. Oid_from_bytes
                 [0x06, 0x0a, 0x2b, 0x06, 0x01, 0x04, 0x01, 0xbf, 0x08, 0x03, 0x02, 0x0a]
                 = Some (Inr oid')
          \<and> Oid_eq oid' \<lparr>identifiers = [1, 3, 6, 1, 4, 1, 8072, 3, 2, 10],
                            collapsed_identifiers = [43, 6, 1, 4, 1, 191, 8, 3, 2, 10],
                            oid_length = 10\<rparr>
          \<and> identifiers oid' = [1, 3, 6, 1, 4, 1, 8072, 3, 2, 10])"
proof -
  let ?ids = "[1, 3, 6, 1, 4, 1, 8072, 3, 2, 10] :: int list"
  let ?oid = "\<lparr>identifiers = ?ids,
                collapsed_identifiers = [43, 6, 1, 4, 1, 191, 8, 3, 2, 10],
                oid_length = 10\<rparr>"
  let ?bs = "[0x06, 0x0a, 0x2b, 0x06, 0x01, 0x04, 0x01, 0xbf, 0x08, 0x03, 0x02, 0x0a] :: bytes"
  have h1: "\<forall>x\<in>set ?ids. 0 \<le> x" by simp
  have h2: "Oid_init ?ids = Some (Inr ?oid)"
    by (simp add: Oid_init_def encode_large_value_def encode_large_value_loop_pos
          encode_large_value_loop_0 encode_length_def and_127 drop_bit_eq_div)
  have h3: "Oid_bytes ?oid = Inr ?bs"
    by (simp add: Oid_bytes_def bytes_of_def)
  from Oid_roundtrip [OF h1 h2 h3] h1 h2 h3 show ?thesis by simp
qed

text \<open>
  C1 as stated fails, because not every sequence of non-negative integers of length two or
  more is encoded: for \<open>[7, 0]\<close> the first octet would be 280 and \<open>bytes(...)\<close> raises
  \<open>ValueError\<close>; for \<open>1.3\<close> followed by 127 zeros the packed identifiers fill 128 octets and
  \<open>encode_length\<close> raises \<open>NotImplementedError\<close> in the constructor.
\<close>

lemma collapsed_loop_zeros:
  "collapsed_loop (replicate n 0) acc = Some (acc @ replicate n 0)"
  by (induction n arbitrary: acc) (simp_all add: encode_large_value_def replicate_app_Cons_same)

lemma exploded_loop_zeros:
  "exploded_loop (replicate n 0) acc = Some (acc @ replicate n 0)"
  by (induction n arbitrary: acc) (simp_all add: replicate_app_Cons_same)

theorem Oid_roundtrip_counterexample:
  "Oid_init [7, 0]
     = Some (Inr \<lparr>identifiers = [7, 0], collapsed_identifiers = [280], oid_length = 1\<rparr>)
   \<and> Oid_bytes \<lparr>identifiers = [7, 0], collapsed_identifiers = [280], oid_length = 1\<rparr>
     = Inl (ValueError ByteOutOfRange)
   \<and> Oid_init ([1, 3] @ replicate 127 0) = Some (Inl NotImplementedError)"
  by (simp add: Oid_init_def Oid_bytes_def bytes_of_def encode_length_def
        collapsed_loop_zeros exploded_loop_zeros)

end
